theory Spec2Isabelle
  imports Complex_Main "HOL-Library.Multiset"
begin

section \<open>JSON payloads as Python sees them\<close>

text \<open>
  The payloads that travel through the cache are whatever \<^verbatim>\<open>json.loads\<close> and
  \<^verbatim>\<open>response.json()\<close> produce: \<^verbatim>\<open>None\<close>, booleans, numbers, strings, lists and
  dicts. Numbers are modelled as exact reals (\<^verbatim>\<open>time.time()\<close> is a float in the source;
  rounding, infinities and NaN are outside the model). A dict is an association list read
  with \<open>map_of\<close>; a decoder gives every key once.
\<close>

datatype json =
    JNull
  | JBool bool
  | JNum real
  | JStr string
  | JArr "json list"
  | JObj "(string \<times> json) list"

text \<open>Python truth value testing, as used by \<^verbatim>\<open>if cached_time and ...\<close> and \<^verbatim>\<open>while next_url\<close>.\<close>

fun truthy :: "json \<Rightarrow> bool" where
  "truthy JNull = False"
| "truthy (JBool b) = b"
| "truthy (JNum x) = (x \<noteq> 0)"
| "truthy (JStr s) = (s \<noteq> [])"
| "truthy (JArr xs) = (xs \<noteq> [])"
| "truthy (JObj kvs) = (kvs \<noteq> [])"

text \<open>
  Every exception the modelled code can raise. \<open>CursorNotString\<close> marks the one place
  where the model stops short of Python: a truthy page cursor that is not a string.
\<close>

datatype error =
    ConnectionError
  | RedisError
  | ClientResponseError nat
  | FetchFailure
  | AttributeError
  | TypeError
  | IndexError
  | CancelledError
  | CursorNotString

text \<open>\<^verbatim>\<open>d.get(k, default)\<close>: only a dict has the method.\<close>

fun dict_get :: "json \<Rightarrow> string \<Rightarrow> json \<Rightarrow> error + json" where
  "dict_get (JObj kvs) k dflt = Inr (case map_of kvs k of Some v \<Rightarrow> v | None \<Rightarrow> dflt)"
| "dict_get _ k dflt = Inl AttributeError"

section \<open>The world outside the process, and the process state\<close>

type_synonym params = "(string \<times> string) list option"
type_synonym headers = "(string \<times> string) list option"

text \<open>
  What the code does not own is a parameter: whether Redis accepts the connection, whether
  a Redis command raises, what an HTTP GET answers, the JSON codec of the standard library
  and the clock.
\<close>

record env =
  redis_up :: bool
  redis_get_raises :: "string \<Rightarrow> bool"
  redis_set_raises :: "string \<Rightarrow> bool"
  http :: "string \<Rightarrow> params \<Rightarrow> headers \<Rightarrow> error + json"
  json_loads :: "string \<Rightarrow> json option"
  json_dumps :: "json \<Rightarrow> string"
  now :: real

text \<open>
  The interactions with the outside are logged in a ghost trace, so that "no round trip"
  and "exactly one fetch" can be stated.
\<close>

datatype io = RedisConnect | RedisGet string | RedisSet string | HttpGet string

record state =
  inproc :: "string \<rightharpoonup> json"
  redis :: "string \<rightharpoonup> string \<times> int"
  trace :: "io list"

text \<open>The URLs fetched so far, in order.\<close>

definition fetches :: "state \<Rightarrow> string list" where
  "fetches s = concat (map (\<lambda>e. case e of HttpGet u \<Rightarrow> [u] | _ \<Rightarrow> []) (trace s))"

definition emit :: "io \<Rightarrow> state \<Rightarrow> state" where
  "emit e s = s\<lparr>trace := trace s @ [e]\<rparr>"

text \<open>\<^verbatim>\<open>get_redis\<close>: any failure of \<^verbatim>\<open>from_url\<close> is re-raised as \<^verbatim>\<open>ConnectionError\<close>.\<close>

definition get_redis :: "env \<Rightarrow> state \<Rightarrow> (error + unit) \<times> state" where
  "get_redis env s =
     (if redis_up env then Inr () else Inl ConnectionError, emit RedisConnect s)"

text \<open>\<^verbatim>\<open>redis_client.get(key)\<close>: the stored string, \<^verbatim>\<open>None\<close>, or an exception of the client.\<close>

definition redis_get :: "env \<Rightarrow> string \<Rightarrow> state \<Rightarrow> (error + string option) \<times> state" where
  "redis_get env k s =
     (if redis_get_raises env k then Inl RedisError else Inr (map_option fst (redis s k)),
      emit (RedisGet k) s)"

text \<open>\<^verbatim>\<open>redis_client.set(key, value, ex=ttl)\<close>.\<close>

definition redis_set :: "env \<Rightarrow> string \<Rightarrow> string \<Rightarrow> int \<Rightarrow> state \<Rightarrow> (error + unit) \<times> state" where
  "redis_set env k v ttl s =
     (if redis_set_raises env k then (Inl RedisError, emit (RedisSet k) s)
      else (Inr (), emit (RedisSet k) (s\<lparr>redis := (redis s)(k \<mapsto> (v, ttl))\<rparr>)))"

text \<open>
  \<^verbatim>\<open>fetch_data\<close>: one GET; both \<^verbatim>\<open>except\<close> branches log and re-raise, so the outcome is the
  outcome of the request.
\<close>

definition fetch_data :: "env \<Rightarrow> string \<Rightarrow> params \<Rightarrow> headers \<Rightarrow> state \<Rightarrow> (error + json) \<times> state" where
  "fetch_data env url ps hs s = (http env url ps hs, emit (HttpGet url) s)"

text \<open>
  \<^verbatim>\<open>json.loads\<close> raises \<^verbatim>\<open>JSONDecodeError\<close> (here \<open>None\<close>) on the empty document whatever
  else it accepts.
\<close>

definition loads :: "env \<Rightarrow> string \<Rightarrow> json option" where
  "loads env raw = (if raw = [] then None else json_loads env raw)"

section \<open>The two-tier cache orchestrator\<close>

text \<open>
  \<^verbatim>\<open>cached_get\<close>, branch by branch. \<open>cached_hit\<close> is the block under \<^verbatim>\<open>if cached:\<close>,
  which yields the decoded entry or falls through (\<open>None\<close>) when the entry is missing,
  empty or corrupt.
\<close>

definition cached_hit :: "env \<Rightarrow> string option \<Rightarrow> json option" where
  "cached_hit env cached =
     (case cached of
        None \<Rightarrow> None
      | Some raw \<Rightarrow> if raw = [] then None else loads env raw)"

definition store_local :: "string \<Rightarrow> json \<Rightarrow> state \<Rightarrow> state" where
  "store_local k v s = s\<lparr>inproc := (inproc s)(k \<mapsto> v)\<rparr>"

definition cached_get ::
  "env \<Rightarrow> string \<Rightarrow> string \<Rightarrow> params \<Rightarrow> headers \<Rightarrow> int \<Rightarrow> state \<Rightarrow> (error + json) \<times> state" where
  "cached_get env cache_key url ps hs ttl s =
     (case inproc s cache_key of
        Some v \<Rightarrow> (Inr v, s)
      | None \<Rightarrow>
          (case get_redis env s of
             (Inl e, s1) \<Rightarrow> (Inl e, s1)
           | (Inr _, s1) \<Rightarrow>
               (case redis_get env cache_key s1 of
                  (Inl e, s2) \<Rightarrow> (Inl e, s2)
                | (Inr cached, s2) \<Rightarrow>
                    (case cached_hit env cached of
                       Some data \<Rightarrow> (Inr data, store_local cache_key data s2)
                     | None \<Rightarrow>
                         (case fetch_data env url ps hs s2 of
                            (Inl e, s3) \<Rightarrow> (Inl e, s3)
                          | (Inr data, s3) \<Rightarrow>
                              (case redis_set env cache_key (json_dumps env data) ttl s3 of
                                 (_, s4) \<Rightarrow> (Inr data, store_local cache_key data s4)))))))"

section \<open>Cache keys\<close>

text \<open>\<^verbatim>\<open>s.rstrip(c)\<close> and \<^verbatim>\<open>s.split(c)\<close> for a one-character argument.\<close>

definition str_rstrip :: "char \<Rightarrow> string \<Rightarrow> string" where
  "str_rstrip c s = rev (dropWhile (\<lambda>x. x = c) (rev s))"

fun str_split :: "char \<Rightarrow> string \<Rightarrow> string list" where
  "str_split c [] = [[]]"
| "str_split c (x # xs) =
     (if x = c then [] # str_split c xs
      else (case str_split c xs of
              [] \<Rightarrow> [[x]]
            | w # ws \<Rightarrow> (x # w) # ws))"

text \<open>
  The key of \<^verbatim>\<open>fetch_single\<close>: \<^verbatim>\<open>url.rstrip("/").split("/")[-1]\<close> behind the prefix and
  an underscore. \<^verbatim>\<open>split\<close> never returns an empty list, so \<^verbatim>\<open>[-1]\<close> cannot raise.
\<close>

definition url_suffix :: "string \<Rightarrow> string" where
  "url_suffix url = last (str_split (CHR ''/'') (str_rstrip (CHR ''/'') url))"

definition fetch_single_key :: "string \<Rightarrow> string \<Rightarrow> string" where
  "fetch_single_key cache_key_prefix url = cache_key_prefix @ ''_'' @ url_suffix url"

text \<open>The key of one page in \<^verbatim>\<open>fetch_vehicles_paginated\<close>.\<close>

definition page_key :: "string \<Rightarrow> string" where
  "page_key next_url = ''vehicles_data_'' @ next_url"

text \<open>The key of the OData helpers.\<close>

definition odata_key :: "string \<Rightarrow> string" where
  "odata_key user_id = ''odata_flight_'' @ user_id"

section \<open>The OData single-key helpers\<close>

definition cache_odate_response ::
  "env \<Rightarrow> string \<Rightarrow> json \<Rightarrow> int \<Rightarrow> state \<Rightarrow> (error + unit) \<times> state" where
  "cache_odate_response env user_id response ttl s =
     (case get_redis env s of
        (Inl e, s1) \<Rightarrow> (Inl e, s1)
      | (Inr _, s1) \<Rightarrow>
          (case redis_set env (odata_key user_id)
                  (json_dumps env (JObj [(''timestamp'', JNum (now env)), (''response'', response)]))
                  ttl s1 of
             (_, s2) \<Rightarrow> (Inr (), s2)))"

text \<open>
  \<^verbatim>\<open>cached_time and (time.time() - cached_time > ttl)\<close>: a falsy timestamp short-circuits;
  a number is compared; \<^verbatim>\<open>True\<close> counts as 1; any other truthy value makes the subtraction
  raise \<^verbatim>\<open>TypeError\<close>, which the function does not catch.
\<close>

fun expired :: "env \<Rightarrow> json \<Rightarrow> int \<Rightarrow> error + bool" where
  "expired env JNull ttl = Inr False"
| "expired env (JNum t) ttl = Inr (t \<noteq> 0 \<and> now env - t > real_of_int ttl)"
| "expired env (JBool b) ttl = Inr (b \<and> now env - 1 > real_of_int ttl)"
| "expired env v ttl = (if truthy v then Inl TypeError else Inr False)"

text \<open>
  \<^verbatim>\<open>get_odate_response\<close>. Python's \<^verbatim>\<open>None\<close> is \<open>JNull\<close>: the function answers \<^verbatim>\<open>None\<close> both
  for "absent" and for a stored response that is \<^verbatim>\<open>null\<close> or missing.
\<close>

definition get_odate_response ::
  "env \<Rightarrow> string \<Rightarrow> int \<Rightarrow> state \<Rightarrow> (error + json) \<times> state" where
  "get_odate_response env user_id ttl s =
     (case get_redis env s of
        (Inl e, s1) \<Rightarrow> (Inl e, s1)
      | (Inr _, s1) \<Rightarrow>
          (case redis_get env (odata_key user_id) s1 of
             (Inl e, s2) \<Rightarrow> (Inl e, s2)
           | (Inr None, s2) \<Rightarrow> (Inr JNull, s2)
           | (Inr (Some raw), s2) \<Rightarrow>
               if raw = [] then (Inr JNull, s2)
               else
                 (case loads env raw of
                    None \<Rightarrow> (Inr JNull, s2)
                  | Some cache_data \<Rightarrow>
                      (case dict_get cache_data ''timestamp'' JNull of
                         Inl e \<Rightarrow> (Inl e, s2)
                       | Inr cached_time \<Rightarrow>
                           (case expired env cached_time ttl of
                              Inl e \<Rightarrow> (Inl e, s2)
                            | Inr True \<Rightarrow> (Inr JNull, s2)
                            | Inr False \<Rightarrow>
                                (case dict_get cache_data ''response'' JNull of
                                   Inl e \<Rightarrow> (Inl e, s2)
                                 | Inr r \<Rightarrow> (Inr r, s2)))))))"

section \<open>The pagination walker\<close>

text \<open>
  \<^verbatim>\<open>all_results.extend(page_results)\<close> accepts any iterable: a list adds its items, a
  string its characters, a dict its keys; anything else raises \<^verbatim>\<open>TypeError\<close>.
\<close>

fun extend_results :: "json list \<Rightarrow> json \<Rightarrow> error + json list" where
  "extend_results acc (JArr xs) = Inr (acc @ xs)"
| "extend_results acc (JStr cs) = Inr (acc @ map (\<lambda>c. JStr [c]) cs)"
| "extend_results acc (JObj kvs) = Inr (acc @ map JStr (remdups (map fst kvs)))"
| "extend_results acc _ = Inl TypeError"

text \<open>
  The \<^verbatim>\<open>while next_url:\<close> loop of \<^verbatim>\<open>fetch_vehicles_paginated\<close>, with the accumulator and
  the cursor as arguments. The source has no bound on the number of rounds, so the loop
  is a partial function: \<open>None\<close> is "never returns".
\<close>

partial_function (option) walk_pages ::
  "env \<Rightarrow> headers \<Rightarrow> json \<Rightarrow> json list \<Rightarrow> state \<Rightarrow> ((error + json) \<times> state) option" where
  "walk_pages env hs next_url all_results s =
     (if truthy next_url then
        (case next_url of
           JStr u \<Rightarrow>
             (case cached_get env (page_key u) u None hs 3600 s of
                (Inl e, s1) \<Rightarrow> Some (Inl e, s1)
              | (Inr page_data, s1) \<Rightarrow>
                  (case dict_get page_data ''results'' (JArr []) of
                     Inl e \<Rightarrow> Some (Inl e, s1)
                   | Inr page_results \<Rightarrow>
                       (case extend_results all_results page_results of
                          Inl e \<Rightarrow> Some (Inl e, s1)
                        | Inr all_results' \<Rightarrow>
                            (case dict_get page_data ''next'' JNull of
                               Inl e \<Rightarrow> Some (Inl e, s1)
                             | Inr next_url' \<Rightarrow> walk_pages env hs next_url' all_results' s1))))
         | _ \<Rightarrow> Some (Inl CursorNotString, s))
      else Some (Inr (JObj [(''results'', JArr all_results)]), s))"

definition fetch_vehicles_paginated ::
  "env \<Rightarrow> string \<Rightarrow> headers \<Rightarrow> state \<Rightarrow> ((error + json) \<times> state) option" where
  "fetch_vehicles_paginated env url hs s = walk_pages env hs (JStr url) [] s"

text \<open>
  One round of the loop on its own: either the loop is left (with the value returned or the
  exception raised), or the next round starts from a new cursor, accumulator and state.
  \<open>after_rounds\<close> runs a number of rounds.
\<close>

type_synonym config = "json \<times> json list \<times> state"

definition round_step ::
  "env \<Rightarrow> headers \<Rightarrow> json \<Rightarrow> json list \<Rightarrow> state \<Rightarrow> ((error + json) \<times> state) + config" where
  "round_step env hs next_url all_results s =
     (if truthy next_url then
        (case next_url of
           JStr u \<Rightarrow>
             (case cached_get env (page_key u) u None hs 3600 s of
                (Inl e, s1) \<Rightarrow> Inl (Inl e, s1)
              | (Inr page_data, s1) \<Rightarrow>
                  (case dict_get page_data ''results'' (JArr []) of
                     Inl e \<Rightarrow> Inl (Inl e, s1)
                   | Inr page_results \<Rightarrow>
                       (case extend_results all_results page_results of
                          Inl e \<Rightarrow> Inl (Inl e, s1)
                        | Inr all_results' \<Rightarrow>
                            (case dict_get page_data ''next'' JNull of
                               Inl e \<Rightarrow> Inl (Inl e, s1)
                             | Inr next_url' \<Rightarrow> Inr (next_url', all_results', s1)))))
         | _ \<Rightarrow> Inl (Inl CursorNotString, s))
      else Inl (Inr (JObj [(''results'', JArr all_results)]), s))"

fun after_rounds :: "env \<Rightarrow> headers \<Rightarrow> nat \<Rightarrow> config \<Rightarrow> config option" where
  "after_rounds env hs 0 c = Some c"
| "after_rounds env hs (Suc n) (next_url, all_results, s) =
     (case round_step env hs next_url all_results s of
        Inl out \<Rightarrow> None
      | Inr c' \<Rightarrow> after_rounds env hs n c')"

section \<open>Vocabulary for the properties of the walker\<close>

text \<open>
  A page envelope and its parts; a list of pages that link up and end (\<open>linked\<close>); what one
  orchestrated fetch per page yields (\<open>visit_all\<close>); and what a completed round leaves in
  the process-local tier (\<open>stored_link\<close>).
\<close>

definition results_of :: "json \<Rightarrow> json list" where
  "results_of p = (case dict_get p ''results'' (JArr []) of Inr (JArr xs) \<Rightarrow> xs | _ \<Rightarrow> [])"

definition next_of :: "json \<Rightarrow> json" where
  "next_of p = (case dict_get p ''next'' JNull of Inr n \<Rightarrow> n | Inl e \<Rightarrow> JNull)"

definition is_page :: "json \<Rightarrow> bool" where
  "is_page p = (case dict_get p ''results'' (JArr []) of Inr (JArr xs) \<Rightarrow> True | _ \<Rightarrow> False)"

fun linked :: "string list \<Rightarrow> json list \<Rightarrow> bool" where
  "linked [u] [p] = (u \<noteq> [] \<and> is_page p \<and> \<not> truthy (next_of p))"
| "linked (u # v # us) (p # ps) =
     (u \<noteq> [] \<and> is_page p \<and> next_of p = JStr v \<and> linked (v # us) ps)"
| "linked _ _ = False"

fun visit_all :: "env \<Rightarrow> headers \<Rightarrow> string list \<Rightarrow> state \<Rightarrow> (error + json) list \<times> state" where
  "visit_all env hs [] s = ([], s)"
| "visit_all env hs (u # us) s =
     (case cached_get env (page_key u) u None hs 3600 s of
        (r, s1) \<Rightarrow> (case visit_all env hs us s1 of (rs, s2) \<Rightarrow> (r # rs, s2)))"

definition extendable :: "json \<Rightarrow> bool" where
  "extendable r = (case extend_results [] r of Inl e \<Rightarrow> False | Inr xs \<Rightarrow> True)"

definition stored_link :: "state \<Rightarrow> string \<Rightarrow> json \<Rightarrow> bool" where
  "stored_link s u v =
     (u \<noteq> [] \<and>
      (case inproc s (page_key u) of
         None \<Rightarrow> False
       | Some p \<Rightarrow>
           (case dict_get p ''results'' (JArr []) of
              Inl e \<Rightarrow> False
            | Inr r \<Rightarrow> extendable r \<and> dict_get p ''next'' JNull = Inr v)))"

definition closed_region :: "state \<Rightarrow> string set \<Rightarrow> bool" where
  "closed_region s C = (\<forall>u\<in>C. \<exists>v\<in>C. stored_link s u (JStr v))"

section \<open>The pilot batch lookup of the ETL driver\<close>

text \<open>
  The body of the \<^verbatim>\<open>for vehicle in raw_vehicles\<close> loop of \<^verbatim>\<open>run_etl\<close> up to
  \<^verbatim>\<open>pilot_details\<close>. The list comprehension is outside the \<^verbatim>\<open>try\<close>, so its \<^verbatim>\<open>IndexError\<close>
  escapes; everything inside the \<^verbatim>\<open>try\<close> degrades to an empty list.
\<close>

fun str_join :: "string \<Rightarrow> string list \<Rightarrow> string" where
  "str_join sep [] = []"
| "str_join sep [x] = x"
| "str_join sep (x # y # ys) = x @ sep @ str_join sep (y # ys)"

definition pilot_id :: "string \<Rightarrow> error + string" where
  "pilot_id url =
     (let parts = str_split (CHR ''/'') url
      in if length parts < 2 then Inl IndexError else Inr (parts ! (length parts - 2)))"

fun pilot_ids :: "string list \<Rightarrow> error + string list" where
  "pilot_ids [] = Inr []"
| "pilot_ids (url # urls) =
     (case pilot_id url of
        Inl e \<Rightarrow> Inl e
      | Inr i \<Rightarrow> (case pilot_ids urls of Inl e \<Rightarrow> Inl e | Inr is \<Rightarrow> Inr (i # is)))"

definition pilots_batch_url :: "string \<Rightarrow> string list \<Rightarrow> string" where
  "pilots_batch_url base_url ids = base_url @ ''/api/people/?id='' @ str_join '','' ids"

definition run_etl_pilot_details ::
  "env \<Rightarrow> string \<Rightarrow> headers \<Rightarrow> string list \<Rightarrow> state \<Rightarrow> (error + json) \<times> state" where
  "run_etl_pilot_details env base_url hs pilot_urls s =
     (if pilot_urls = [] then (Inr (JArr []), s)
      else
        (case pilot_ids pilot_urls of
           Inl e \<Rightarrow> (Inl e, s)
         | Inr ids \<Rightarrow>
             (case cached_get env ''pilots_batch'' (pilots_batch_url base_url ids) None hs 3600 s of
                (Inl e, s1) \<Rightarrow> (Inr (JArr []), s1)
              | (Inr batch_pilots, s1) \<Rightarrow>
                  (case dict_get batch_pilots ''results'' (JArr []) of
                     Inl e \<Rightarrow> (Inr (JArr []), s1)
                   | Inr pilot_details \<Rightarrow> (Inr pilot_details, s1)))))"

section \<open>Concurrent calls: tasks, the admission gate, the batch fetcher\<close>

text \<open>
  \<^verbatim>\<open>parallel_cached_get\<close> maps \<^verbatim>\<open>fetch_single\<close> over the URLs with \<^verbatim>\<open>stream.map(...,
  ordered=False)\<close>: one coroutine per URL on the event loop, results collected as the
  coroutines complete. A coroutine runs undisturbed from one \<^verbatim>\<open>await\<close> to the next, so it is
  modelled as a task with a program counter that names the \<^verbatim>\<open>await\<close> it is suspended at:
  \<^item> \<open>Waiting\<close>: at \<^verbatim>\<open>async with SEMAPHORE\<close>, no slot yet;
  \<^item> \<open>Entered\<close>: slot held, about to run \<^verbatim>\<open>cached_get\<close> from its first line;
  \<^item> \<open>AwaitConnect\<close>, \<open>AwaitGet\<close>, \<open>AwaitFetch\<close>, \<open>AwaitSet\<close>: suspended at
    \<^verbatim>\<open>await get_redis()\<close>, \<^verbatim>\<open>await redis_client.get\<close>, \<^verbatim>\<open>await fetch_data\<close> (the HTTP request is
    in flight) and \<^verbatim>\<open>await redis_client.set\<close>;
  \<^item> \<open>Finished\<close>: returned or raised.
  The effect of an awaited operation takes place when the task is resumed from it. Every
  \<^verbatim>\<open>await\<close> counts as a point where the event loop may switch tasks, also one that in fact
  returns at once: the model has every interleaving of the event loop, and more.
  \<^verbatim>\<open>SEMAPHORE = asyncio.Semaphore(5)\<close> is a counter of free slots: acquiring needs a free slot
  and takes it, leaving the \<^verbatim>\<open>async with\<close> block (by return, exception or cancellation) gives
  it back.
\<close>

definition SEMAPHORE :: nat where
  "SEMAPHORE = 5"

datatype pc =
    Waiting
  | Entered
  | AwaitConnect
  | AwaitGet
  | AwaitFetch
  | AwaitSet json
  | Finished "error + json"

record task =
  t_gated :: bool
  t_key :: string
  t_url :: string
  t_params :: params
  t_headers :: headers
  t_ttl :: int
  t_pc :: pc

text \<open>
  The process: the shared state, the free slots of the gate, the tasks on the event loop,
  and the log of completions in the order they happened (what the unordered stream yields).
\<close>

record process =
  mem :: state
  sem :: nat
  tasks :: "task list"
  finished :: "(nat \<times> (error + json)) list"

definition idle :: "state \<Rightarrow> process" where
  "idle s = \<lparr>mem = s, sem = SEMAPHORE, tasks = [], finished = []\<rparr>"

text \<open>
  The task \<^verbatim>\<open>fetch_single(url)\<close> of a batch, and a call of \<^verbatim>\<open>cached_get\<close> made directly (by
  the walker or the ETL driver), which does not pass the gate.
\<close>

definition fetch_single :: "string \<Rightarrow> headers \<Rightarrow> int \<Rightarrow> string \<Rightarrow> task" where
  "fetch_single cache_key_prefix hs ttl url =
     \<lparr>t_gated = True, t_key = fetch_single_key cache_key_prefix url, t_url = url,
      t_params = None, t_headers = hs, t_ttl = ttl, t_pc = Waiting\<rparr>"

definition direct_call :: "string \<Rightarrow> string \<Rightarrow> params \<Rightarrow> headers \<Rightarrow> int \<Rightarrow> task" where
  "direct_call cache_key url ps hs ttl =
     \<lparr>t_gated = False, t_key = cache_key, t_url = url,
      t_params = ps, t_headers = hs, t_ttl = ttl, t_pc = Entered\<rparr>"

text \<open>
  \<open>advance\<close> resumes a task inside \<^verbatim>\<open>cached_get\<close> and runs it to its next \<^verbatim>\<open>await\<close> or to
  its end: the same branches, in the same order, as \<open>cached_get\<close> above.
\<close>

definition advance :: "env \<Rightarrow> task \<Rightarrow> state \<Rightarrow> pc \<times> state" where
  "advance env t s =
     (case t_pc t of
        Entered \<Rightarrow>
          (case inproc s (t_key t) of
             Some v \<Rightarrow> (Finished (Inr v), s)
           | None \<Rightarrow> (AwaitConnect, s))
      | AwaitConnect \<Rightarrow>
          (case get_redis env s of
             (Inl e, s1) \<Rightarrow> (Finished (Inl e), s1)
           | (Inr _, s1) \<Rightarrow> (AwaitGet, s1))
      | AwaitGet \<Rightarrow>
          (case redis_get env (t_key t) s of
             (Inl e, s2) \<Rightarrow> (Finished (Inl e), s2)
           | (Inr cached, s2) \<Rightarrow>
               (case cached_hit env cached of
                  Some data \<Rightarrow> (Finished (Inr data), store_local (t_key t) data s2)
                | None \<Rightarrow> (AwaitFetch, s2)))
      | AwaitFetch \<Rightarrow>
          (case fetch_data env (t_url t) (t_params t) (t_headers t) s of
             (Inl e, s3) \<Rightarrow> (Finished (Inl e), s3)
           | (Inr data, s3) \<Rightarrow> (AwaitSet data, s3))
      | AwaitSet data \<Rightarrow>
          (case redis_set env (t_key t) (json_dumps env data) (t_ttl t) s of
             (_, s4) \<Rightarrow> (Finished (Inr data), store_local (t_key t) data s4))
      | _ \<Rightarrow> (t_pc t, s))"

fun holds_slot :: "task \<Rightarrow> bool" where
  "holds_slot t =
     (t_gated t \<and> (case t_pc t of Waiting \<Rightarrow> False | Finished r \<Rightarrow> False | _ \<Rightarrow> True))"


definition finish_task :: "nat \<Rightarrow> task \<Rightarrow> error + json \<Rightarrow> process \<Rightarrow> process" where
  "finish_task i t r p =
     p\<lparr>sem := (if holds_slot t then sem p + 1 else sem p),
       tasks := (tasks p)[i := t\<lparr>t_pc := Finished r\<rparr>],
       finished := finished p @ [(i, r)]\<rparr>"

text \<open>
  One turn of the event loop for task \<open>i\<close>. A waiting task that finds no free slot stays
  where it is. \<open>cancel\<close> is what the stream does to the tasks still pending when one of them
  has raised.
\<close>

definition step :: "env \<Rightarrow> nat \<Rightarrow> process \<Rightarrow> process" where
  "step env i p =
     (if i < length (tasks p) then
        (let t = tasks p ! i in
         case t_pc t of
           Waiting \<Rightarrow>
             if 0 < sem p then p\<lparr>sem := sem p - 1, tasks := (tasks p)[i := t\<lparr>t_pc := Entered\<rparr>]\<rparr>
             else p
         | Finished r \<Rightarrow> p
         | _ \<Rightarrow>
             (case advance env t (mem p) of
                (Finished r, s') \<Rightarrow> finish_task i t r (p\<lparr>mem := s'\<rparr>)
              | (pc', s') \<Rightarrow> p\<lparr>mem := s', tasks := (tasks p)[i := t\<lparr>t_pc := pc'\<rparr>]\<rparr>))
      else p)"

definition cancel :: "nat \<Rightarrow> process \<Rightarrow> process" where
  "cancel i p =
     (if i < length (tasks p) then
        (let t = tasks p ! i in
         case t_pc t of
           Finished r \<Rightarrow> p
         | _ \<Rightarrow> finish_task i t (Inl CancelledError) p)
      else p)"

definition spawn :: "string \<Rightarrow> string list \<Rightarrow> headers \<Rightarrow> int \<Rightarrow> process \<Rightarrow> process" where
  "spawn cache_key_prefix urls hs ttl p =
     p\<lparr>tasks := tasks p @ map (fetch_single cache_key_prefix hs ttl) urls\<rparr>"

text \<open>
  The list comprehension over the stream: the first exception of a task ends the call with
  that exception; otherwise, once every task has completed, the call returns the values in
  completion order. A schedule is the order in which the event loop resumes the tasks;
  once the call has an outcome nothing more is resumed. \<open>None\<close> is a schedule that ends
  before the call has returned.
\<close>

fun failures :: "(nat \<times> (error + json)) list \<Rightarrow> error list" where
  "failures [] = []"
| "failures ((i, Inl e) # fs) = e # failures fs"
| "failures ((i, Inr v) # fs) = failures fs"

fun results :: "(nat \<times> (error + json)) list \<Rightarrow> json list" where
  "results [] = []"
| "results ((i, Inl e) # fs) = results fs"
| "results ((i, Inr v) # fs) = v # results fs"

definition outcome :: "process \<Rightarrow> (error + json list) option" where
  "outcome p =
     (if failures (finished p) \<noteq> [] then Some (Inl (hd (failures (finished p))))
      else if length (finished p) = length (tasks p) then Some (Inr (results (finished p)))
      else None)"

definition sched_step :: "env \<Rightarrow> process \<Rightarrow> nat \<Rightarrow> process" where
  "sched_step env p i = (if outcome p = None then step env i p else p)"

definition drive :: "env \<Rightarrow> nat list \<Rightarrow> process \<Rightarrow> process" where
  "drive env sched p = foldl (sched_step env) p sched"



text \<open>
  The life of the process as a sequence of events: batches and direct calls start, the event
  loop resumes or cancels a task (each time against the outside world of that moment), the
  OData helpers run, and the shared store changes under the process (expiry, other
  processes). The walker is the special case of direct calls made one after the other.
\<close>

datatype event =
    Spawn string "string list" headers int
  | Call string string params headers int
  | Resume env nat
  | Cancel nat
  | OdataPut env string json int
  | OdataGet env string int
  | Outside "string \<rightharpoonup> string \<times> int"

fun apply_event :: "process \<Rightarrow> event \<Rightarrow> process" where
  "apply_event p (Spawn cache_key_prefix urls hs ttl) = spawn cache_key_prefix urls hs ttl p"
| "apply_event p (Call cache_key url ps hs ttl) =
     p\<lparr>tasks := tasks p @ [direct_call cache_key url ps hs ttl]\<rparr>"
| "apply_event p (Resume env i) = step env i p"
| "apply_event p (Cancel i) = cancel i p"
| "apply_event p (OdataPut env user_id response ttl) =
     p\<lparr>mem := snd (cache_odate_response env user_id response ttl (mem p))\<rparr>"
| "apply_event p (OdataGet env user_id ttl) =
     p\<lparr>mem := snd (get_odate_response env user_id ttl (mem p))\<rparr>"
| "apply_event p (Outside store) = p\<lparr>mem := (mem p)\<lparr>redis := store\<rparr>\<rparr>"

definition run :: "event list \<Rightarrow> process \<Rightarrow> process" where
  "run evs p = foldl apply_event p evs"

section \<open>Vocabulary for the properties of concurrent calls\<close>





definition gate_inv :: "process \<Rightarrow> bool" where
  "gate_inv p =
     (sem p + length (filter holds_slot (tasks p)) = SEMAPHORE
      \<and> list_all (\<lambda>t. t_pc t = Waiting \<longrightarrow> t_gated t) (tasks p))"

fun past_check :: "pc \<Rightarrow> bool" where
  "past_check Waiting = False"
| "past_check Entered = False"
| "past_check (Finished r) = False"
| "past_check _ = True"

definition no_racer :: "string \<Rightarrow> process \<Rightarrow> bool" where
  "no_racer k p = list_all (\<lambda>t. t_key t = k \<longrightarrow> \<not> past_check (t_pc t)) (tasks p)"


definition call_of :: "task \<Rightarrow> task" where
  "call_of t = t\<lparr>t_pc := Waiting\<rparr>"







section \<open>Concrete worlds for the examples\<close>

text \<open>
  A small outside world in which the theorems below are exercised: a codec that knows a
  handful of documents (\<open>dq\<close> is the double quote), an upstream API with a dozen resources,
  and states of the process with cold caches, with one entry in the process-local tier and
  with one entry in the shared store.
\<close>

definition dq :: string where
  "dq = [CHR 0x22]"

definition raw_data_123 :: string where
  "raw_data_123 = ''{'' @ dq @ ''data'' @ dq @ '': 123}''"

definition raw_flight :: "string \<Rightarrow> string" where
  "raw_flight ts =
     ''{'' @ dq @ ''timestamp'' @ dq @ '': '' @ ts @ '', '' @ dq @ ''response'' @ dq @ '': ''
       @ dq @ ''LH-400'' @ dq @ ''}''"

definition demo_loads :: "string \<Rightarrow> json option" where
  "demo_loads raw =
     (if raw = raw_data_123 then Some (JObj [(''data'', JNum 123)])
      else if raw = raw_flight ''0'' then
        Some (JObj [(''timestamp'', JNum 0), (''response'', JStr ''LH-400'')])
      else if raw = raw_flight ''1700000000'' then
        Some (JObj [(''timestamp'', JNum 1700000000), (''response'', JStr ''LH-400'')])
      else if raw = raw_flight ''1700006200'' then
        Some (JObj [(''timestamp'', JNum 1700006200), (''response'', JStr ''LH-400'')])
      else if raw = raw_flight ''null'' then
        Some (JObj [(''timestamp'', JNull), (''response'', JStr ''LH-400'')])
      else None)"

definition demo_dumps :: "json \<Rightarrow> string" where
  "demo_dumps v = (if v = JObj [(''data'', JNum 123)] then raw_data_123 else ''null'')"

definition demo_page :: "string \<Rightarrow> string \<Rightarrow> json" where
  "demo_page name nxt =
     JObj [(''results'', JArr [JObj [(''name'', JStr name)]]),
           (''next'', if nxt = [] then JNull else JStr nxt)]"

definition demo_http :: "string \<Rightarrow> params \<Rightarrow> headers \<Rightarrow> error + json" where
  "demo_http url ps hs =
     (if url = ''https://fakeurl.com/data'' then Inr (JObj [(''data'', JNum 123)])
      else if url = ''https://sw.example/api/people/?id=1'' then
        Inr (JObj [(''results'', JArr [JObj [(''name'', JStr ''Luke'')]])])
      else if url = ''https://sw.example/api/people/?id=2'' then
        Inr (JObj [(''results'', JArr [JObj [(''name'', JStr ''Han'')]])])
      else if url = ''https://sw.example/vehicles'' then
        Inr (demo_page ''Sand Crawler'' ''https://sw.example/vehicles?page=2'')
      else if url = ''https://sw.example/vehicles?page=2'' then
        Inr (demo_page ''Snowspeeder'' ''https://sw.example/vehicles?page=3'')
      else if url = ''https://sw.example/vehicles?page=3'' then
        Inr (demo_page ''AT-AT'' [])
      else if url = ''https://sw.example/speeder'' then
        Inr (demo_page ''Speeder'' [])
      else if url = ''https://loop.example/a'' then
        Inr (demo_page ''A-wing'' ''https://loop.example/b'')
      else if url = ''https://loop.example/b'' then
        Inr (demo_page ''B-wing'' ''https://loop.example/a'')
      else if url = ''https://a.example/species/1/'' then Inr (JStr ''Human'')
      else if url = ''https://b.example/species/1/'' then Inr (JStr ''Droid'')
      else if url = ''https://a.example/species/2/'' then Inr (JStr ''Wookiee'')
      else Inl (ClientResponseError 404))"

definition demo_env :: env where
  "demo_env = \<lparr>redis_up = True, redis_get_raises = (\<lambda>k. False), redis_set_raises = (\<lambda>k. False),
      http = demo_http, json_loads = demo_loads, json_dumps = demo_dumps, now = 1700007200\<rparr>"

definition cold :: state where
  "cold = \<lparr>inproc = Map.empty, redis = Map.empty, trace = []\<rparr>"


definition shared :: "string \<Rightarrow> string \<Rightarrow> state" where
  "shared k raw = \<lparr>inproc = Map.empty, redis = [k \<mapsto> (raw, 3600)], trace = []\<rparr>"

definition env_1970 :: env where
  "env_1970 = demo_env\<lparr>now := 7200\<rparr>"

definition env_get_down :: env where
  "env_get_down = demo_env\<lparr>redis_get_raises := (\<lambda>k. True)\<rparr>"

definition env_set_down :: env where
  "env_set_down = demo_env\<lparr>redis_set_raises := (\<lambda>k. True)\<rparr>"

definition chain3 :: "string list" where
  "chain3 = [''https://sw.example/vehicles'', ''https://sw.example/vehicles?page=2'',
             ''https://sw.example/vehicles?page=3'']"

definition pages3 :: "json list" where
  "pages3 = [demo_page ''Sand Crawler'' ''https://sw.example/vehicles?page=2'',
             demo_page ''Snowspeeder'' ''https://sw.example/vehicles?page=3'',
             demo_page ''AT-AT'' []]"





section \<open>Properties\<close>

lemmas demo_defs =
  demo_env_def demo_http_def demo_loads_def demo_dumps_def raw_data_123_def raw_flight_def dq_def
  cold_def shared_def env_get_down_def env_set_down_def env_1970_def

lemmas eval_defs = cached_get_def get_redis_def redis_get_def fetch_data_def redis_set_def
  cached_hit_def store_local_def emit_def fetches_def loads_def page_key_def


subsection \<open>One call of the orchestrator\<close>

lemma cached_get_local_hit:
  "inproc s k = Some v \<Longrightarrow> cached_get env k url ps hs ttl s = (Inr v, s)"
  by (simp add: cached_get_def)



lemma cached_hit_corrupt [simp]:
  "loads env raw = None \<Longrightarrow> cached_hit env (Some raw) = None"
  by (simp add: cached_hit_def)

lemma cached_hit_decoded:
  "loads env raw = Some data \<Longrightarrow> cached_hit env (Some raw) = Some data"
  by (auto simp: cached_hit_def loads_def split: if_splits)




subsection \<open>Failures of the shared cache\<close>





subsection \<open>Logical expiry of the OData entry\<close>

lemma get_odate_response_read:
  assumes "redis_up env" and "\<not> redis_get_raises env (odata_key u)"
  shows "get_odate_response env u ttl s =
     (case redis s (odata_key u) of
        None \<Rightarrow> Inr JNull
      | Some (raw, t) \<Rightarrow>
          (case loads env raw of
             None \<Rightarrow> Inr JNull
           | Some cache_data \<Rightarrow>
               (case dict_get cache_data ''timestamp'' JNull of
                  Inl e \<Rightarrow> Inl e
                | Inr cached_time \<Rightarrow>
                    (case expired env cached_time ttl of
                       Inl e \<Rightarrow> Inl e
                     | Inr True \<Rightarrow> Inr JNull
                     | Inr False \<Rightarrow> dict_get cache_data ''response'' JNull))),
      emit (RedisGet (odata_key u)) (emit RedisConnect s))"
  using assms
  by (auto simp: get_odate_response_def get_redis_def redis_get_def emit_def loads_def
      split: option.splits sum.splits bool.splits)




text \<open>
  Claim C10. When the stored entry decodes to an object whose \<open>timestamp\<close> is missing,
  \<^verbatim>\<open>null\<close> or zero, the staleness comparison is skipped: whatever the clock and the ttl,
  the stored \<open>response\<close> is returned (\<^verbatim>\<open>None\<close> when there is none).
\<close>

theorem get_odate_response_falsy_timestamp:
  assumes "redis_up env" and "\<not> redis_get_raises env (odata_key user_id)"
    and "redis s (odata_key user_id) = Some (raw, t)"
    and "loads env raw = Some (JObj kvs)"
    and "map_of kvs ''timestamp'' = None \<or> map_of kvs ''timestamp'' = Some JNull
         \<or> map_of kvs ''timestamp'' = Some (JNum 0)"
  shows "fst (get_odate_response env user_id ttl s)
           = Inr (case map_of kvs ''response'' of Some v \<Rightarrow> v | None \<Rightarrow> JNull)"
  using assms
  by (auto simp: get_odate_response_read)

text \<open>The theorem at work: a \<^verbatim>\<open>null\<close> timestamp under a ttl of one second.\<close>

theorem get_odate_response_falsy_timestamp_witness:
  "fst (get_odate_response demo_env ''u1'' 1 (shared (odata_key ''u1'') (raw_flight ''null'')))
     = Inr (JStr ''LH-400'')"
proof -
  have "redis_up demo_env" "\<not> redis_get_raises demo_env (odata_key ''u1'')"
    "redis (shared (odata_key ''u1'') (raw_flight ''null'')) (odata_key ''u1'')
       = Some (raw_flight ''null'', 3600)"
    "loads demo_env (raw_flight ''null'')
       = Some (JObj [(''timestamp'', JNull), (''response'', JStr ''LH-400'')])"
    "map_of [(''timestamp'', JNull), (''response'', JStr ''LH-400'')] ''timestamp'' = Some JNull"
    by (simp_all add: loads_def demo_defs)
  from get_odate_response_falsy_timestamp [OF this(1-4), of 1] this(5)
  show ?thesis by simp
qed

subsection \<open>Cache keys of distinct resources\<close>

text \<open>Page keys and OData keys do tell distinct resources apart.\<close>

lemma page_key_inj: "page_key u = page_key v \<longleftrightarrow> u = v"
  by (simp add: page_key_def)

lemma odata_key_inj: "odata_key u = odata_key v \<longleftrightarrow> u = v"
  by (simp add: odata_key_def)

text \<open>
  Claim C9 does not hold of the code: every pilot batch is cached under the one key
  \<open>pilots_batch\<close>, whatever the ids. Two vehicles with the distinct id lists [1] and [2]:
  the lookup for the second is answered from the process-local tier with the pilots of
  the first, and the upstream API, which would have answered Han, is asked once only.
\<close>

theorem pilots_batch_key_collision:
  "pilot_ids [''https://sw.example/api/people/1/''] = Inr [''1'']
   \<and> pilot_ids [''https://sw.example/api/people/2/''] = Inr [''2'']
   \<and> http demo_env (pilots_batch_url ''https://sw.example'' [''2'']) None None
       = Inr (JObj [(''results'', JArr [JObj [(''name'', JStr ''Han'')]])])
   \<and> (case run_etl_pilot_details demo_env ''https://sw.example'' None
              [''https://sw.example/api/people/1/''] cold of
        (r1, s1) \<Rightarrow>
          r1 = Inr (JArr [JObj [(''name'', JStr ''Luke'')]])
        \<and> (case run_etl_pilot_details demo_env ''https://sw.example'' None
                   [''https://sw.example/api/people/2/''] s1 of
             (r2, s2) \<Rightarrow>
               r2 = Inr (JArr [JObj [(''name'', JStr ''Luke'')]])
             \<and> fetches s2 = [''https://sw.example/api/people/?id=1'']))"
  by (simp add: run_etl_pilot_details_def pilot_id_def pilots_batch_url_def cached_get_def
      get_redis_def redis_get_def fetch_data_def redis_set_def cached_hit_def store_local_def
      emit_def fetches_def demo_defs)

subsection \<open>The walker, round by round\<close>

lemma walk_body_round:
  "(if truthy n then
        (case n of
           JStr u \<Rightarrow>
             (case cached_get env (page_key u) u None hs 3600 s of
                (Inl e, s1) \<Rightarrow> Some (Inl e, s1)
              | (Inr page_data, s1) \<Rightarrow>
                  (case dict_get page_data ''results'' (JArr []) of
                     Inl e \<Rightarrow> Some (Inl e, s1)
                   | Inr page_results \<Rightarrow>
                       (case extend_results acc page_results of
                          Inl e \<Rightarrow> Some (Inl e, s1)
                        | Inr all_results' \<Rightarrow>
                            (case dict_get page_data ''next'' JNull of
                               Inl e \<Rightarrow> Some (Inl e, s1)
                             | Inr next_url' \<Rightarrow> walk env hs next_url' all_results' s1))))
         | _ \<Rightarrow> Some (Inl CursorNotString, s))
      else Some (Inr (JObj [(''results'', JArr acc)]), s)) =
     (case round_step env hs n acc s of
        Inl out \<Rightarrow> Some out
      | Inr (n', acc', s1) \<Rightarrow> walk env hs n' acc' s1)"
  by (simp add: round_step_def split: json.splits prod.splits sum.splits)

lemma walk_pages_round: 
  "walk_pages env hs n acc s =
     (case round_step env hs n acc s of
        Inl out \<Rightarrow> Some out
      | Inr (n', acc', s1) \<Rightarrow> walk_pages env hs n' acc' s1)"
  by (subst walk_pages.simps) (rule walk_body_round)

lemma walk_pages_round_induct:
  assumes "walk_pages env hs n acc s = Some y"
    and step: "\<And>walk env hs n acc s y.
      (\<And>env hs n acc s y. walk env hs n acc s = Some y \<Longrightarrow> P env hs n acc s y) \<Longrightarrow>
      (case round_step env hs n acc s of
         Inl out \<Rightarrow> Some out
       | Inr (n', acc', s1) \<Rightarrow> walk env hs n' acc' s1) = Some y \<Longrightarrow>
      P env hs n acc s y"
  shows "P env hs n acc s (y :: (error + json) \<times> state)"
proof (rule walk_pages.raw_induct [where P = P, OF _ assms(1)])
  fix walk :: "env \<Rightarrow> headers \<Rightarrow> json \<Rightarrow> json list \<Rightarrow> state \<Rightarrow> ((error + json) \<times> state) option"
    and env :: env and hs :: headers and n :: json and acc :: "json list" and s :: state
    and y :: "(error + json) \<times> state"
  assume ih: "\<And>env hs n acc s y. walk env hs n acc s = Some y \<Longrightarrow> P env hs n acc s y"
  assume "(if truthy n then
        (case n of
           JStr u \<Rightarrow>
             (case cached_get env (page_key u) u None hs 3600 s of
                (Inl e, s1) \<Rightarrow> Some (Inl e, s1)
              | (Inr page_data, s1) \<Rightarrow>
                  (case dict_get page_data ''results'' (JArr []) of
                     Inl e \<Rightarrow> Some (Inl e, s1)
                   | Inr page_results \<Rightarrow>
                       (case extend_results acc page_results of
                          Inl e \<Rightarrow> Some (Inl e, s1)
                        | Inr all_results' \<Rightarrow>
                            (case dict_get page_data ''next'' JNull of
                               Inl e \<Rightarrow> Some (Inl e, s1)
                             | Inr next_url' \<Rightarrow> walk env hs next_url' all_results' s1))))
         | _ \<Rightarrow> Some (Inl CursorNotString, s))
      else Some (Inr (JObj [(''results'', JArr acc)]), s)) = Some y"
  then have "(case round_step env hs n acc s of
         Inl out \<Rightarrow> Some out
       | Inr (n', acc', s1) \<Rightarrow> walk env hs n' acc' s1) = Some y"
    by (simp only: walk_body_round)
  with ih show "P env hs n acc s y" by (rule step)
qed

lemma walk_pages_after_rounds:
  "after_rounds env hs k (n, acc, s) = Some (n', acc', s') \<Longrightarrow>
   walk_pages env hs n acc s = walk_pages env hs n' acc' s'"
proof (induction k arbitrary: n acc s)
  case 0
  then show ?case by simp
next
  case (Suc k)
  then show ?case
    by (subst walk_pages_round) (auto split: sum.splits)
qed

lemma extend_results_extendable:
  "extendable r \<Longrightarrow> \<exists>xs. extend_results acc r = Inr xs"
  by (cases r) (auto simp: extendable_def)

lemma extendable_if: "extend_results acc r = Inr xs \<Longrightarrow> extendable r"
  by (cases r) (auto simp: extendable_def)

lemma cached_get_inproc_mono:
  "cached_get env k url ps hs ttl s = (r, s') \<Longrightarrow> inproc s k' = Some x \<Longrightarrow> inproc s' k' = Some x"
  by (auto simp: cached_get_def get_redis_def redis_get_def fetch_data_def redis_set_def
      emit_def store_local_def split: option.splits sum.splits if_splits)

lemma cached_get_stores:
  "cached_get env k url ps hs ttl s = (Inr v, s') \<Longrightarrow> inproc s' k = Some v"
  by (auto simp: cached_get_def get_redis_def redis_get_def fetch_data_def redis_set_def
      emit_def store_local_def split: option.splits sum.splits if_splits)

lemma round_step_Inr:
  assumes "round_step env hs n acc s = Inr (n', acc', s')"
  shows "\<exists>u. n = JStr u \<and> stored_link s' u n'"
    and "inproc s k = Some x \<Longrightarrow> inproc s' k = Some x"
proof -
  from assms obtain u where u: "n = JStr u" "u \<noteq> []"
    by (cases n) (auto simp: round_step_def split: if_splits)
  from assms u obtain p where p: "cached_get env (page_key u) u None hs 3600 s = (Inr p, s')"
    by (auto simp: round_step_def split: prod.splits sum.splits)
  from assms u p obtain r where r: "dict_get p ''results'' (JArr []) = Inr r"
    "extend_results acc r = Inr acc'" "dict_get p ''next'' JNull = Inr n'"
    by (auto simp: round_step_def split: prod.splits sum.splits)
  from cached_get_stores [OF p] r u show "\<exists>u. n = JStr u \<and> stored_link s' u n'"
    by (simp add: stored_link_def extendable_if)
  show "inproc s k = Some x \<Longrightarrow> inproc s' k = Some x"
    using cached_get_inproc_mono [OF p] .
qed

lemma stored_link_mono:
  "stored_link s u v \<Longrightarrow> (\<And>k x. inproc s k = Some x \<Longrightarrow> inproc s' k = Some x) \<Longrightarrow> stored_link s' u v"
  by (auto simp: stored_link_def split: option.splits)

lemma after_rounds_inproc_mono:
  "after_rounds env hs m (n, acc, s) = Some (n', acc', s') \<Longrightarrow> inproc s k = Some x \<Longrightarrow>
   inproc s' k = Some x"
proof (induction m arbitrary: n acc s)
  case 0 then show ?case by simp
next
  case (Suc m)
  then show ?case
    by (auto split: sum.splits dest: round_step_Inr(2))
qed

lemma round_step_in_region:
  assumes "closed_region s C" "u \<in> C"
  shows "\<exists>v\<in>C. \<exists>acc'. round_step env hs (JStr u) acc s = Inr (JStr v, acc', s)"
proof -
  from assms obtain v where v: "v \<in> C" "stored_link s u (JStr v)"
    by (auto simp: closed_region_def)
  then obtain p r where p: "u \<noteq> []" "inproc s (page_key u) = Some p"
    "dict_get p ''results'' (JArr []) = Inr r" "extendable r"
    "dict_get p ''next'' JNull = Inr (JStr v)"
    by (auto simp: stored_link_def split: option.splits sum.splits)
  from extend_results_extendable [OF p(4)] obtain xs where "extend_results acc r = Inr xs"
    by blast
  with p v(1) show ?thesis
    by (auto simp: round_step_def cached_get_local_hit)
qed

lemma walk_pages_region_aux:
  assumes "walk_pages env hs n acc s = Some y"
  shows "\<forall>C u. n = JStr u \<longrightarrow> u \<in> C \<longrightarrow> \<not> closed_region s C"
proof (rule walk_pages_round_induct
    [where P = "\<lambda>env hs n acc s y. \<forall>C u. n = JStr u \<longrightarrow> u \<in> C \<longrightarrow> \<not> closed_region s C",
     OF assms])
  fix walk :: "env \<Rightarrow> headers \<Rightarrow> json \<Rightarrow> json list \<Rightarrow> state \<Rightarrow> ((error + json) \<times> state) option"
    and env :: env and hs :: headers and n :: json and acc :: "json list" and s :: state
    and y :: "(error + json) \<times> state"
  assume ih: "\<And>env hs n acc s y. walk env hs n acc s = Some y \<Longrightarrow>
      \<forall>C u. n = JStr u \<longrightarrow> u \<in> C \<longrightarrow> \<not> closed_region s C"
  assume body: "(case round_step env hs n acc s of
         Inl out \<Rightarrow> Some out
       | Inr (n', acc', s1) \<Rightarrow> walk env hs n' acc' s1) = Some y"
  show "\<forall>C u. n = JStr u \<longrightarrow> u \<in> C \<longrightarrow> \<not> closed_region s C"
  proof (intro allI impI notI)
    fix C u assume h: "n = JStr u" "u \<in> C" "closed_region s C"
    from round_step_in_region [OF h(3,2), of env hs acc]
    obtain v acc' where v: "v \<in> C" "round_step env hs (JStr u) acc s = Inr (JStr v, acc', s)"
      by blast
    with body h(1) have "walk env hs (JStr v) acc' s = Some y"
      by simp
    from ih [OF this] v(1) h(3) show False by blast
  qed
qed

lemma walk_pages_region:
  "closed_region s C \<Longrightarrow> u \<in> C \<Longrightarrow> walk_pages env hs (JStr u) acc s = None"
  using walk_pages_region_aux [of env hs "JStr u" acc s] by (cases "walk_pages env hs (JStr u) acc s") auto


lemma after_rounds_collect:
  "after_rounds env hs m (JStr w0, a, s) = Some (n', a', s') \<Longrightarrow> 0 < m \<Longrightarrow>
   \<exists>C. w0 \<in> C \<and> (\<forall>w\<in>C. \<exists>v. stored_link s' w v \<and> (v = n' \<or> (\<exists>x\<in>C. v = JStr x)))"
proof (induction m arbitrary: w0 a s)
  case 0
  then show ?case by simp
next
  case (Suc m)
  from Suc.prems(1) obtain n1 a1 s1 where
    r: "round_step env hs (JStr w0) a s = Inr (n1, a1, s1)"
    and rest: "after_rounds env hs m (n1, a1, s1) = Some (n', a', s')"
    by (auto split: sum.splits)
  from round_step_Inr(1) [OF r] have "stored_link s1 w0 n1" by simp
  then have link: "stored_link s' w0 n1"
    by (rule stored_link_mono) (rule after_rounds_inproc_mono [OF rest])
  show ?case
  proof (cases m)
    case 0
    with rest link show ?thesis
      by (intro exI [of _ "{w0}"]) auto
  next
    case (Suc m')
    with rest obtain c where "round_step env hs n1 a1 s1 = Inr c"
      by (auto split: sum.splits)
    then obtain w1 where w1: "n1 = JStr w1"
      using round_step_Inr(1) [of env hs n1 a1 s1 "fst c" "fst (snd c)" "snd (snd c)"] by auto
    from Suc.IH [OF rest [unfolded w1]] Suc obtain C where
      C: "w1 \<in> C" "\<forall>w\<in>C. \<exists>v. stored_link s' w v \<and> (v = n' \<or> (\<exists>x\<in>C. v = JStr x))"
      by auto
    show ?thesis
    proof (intro exI [of _ "insert w0 C"] conjI ballI)
      show "w0 \<in> insert w0 C" by simp
      fix w assume "w \<in> insert w0 C"
      then show "\<exists>v. stored_link s' w v \<and> (v = n' \<or> (\<exists>x\<in>insert w0 C. v = JStr x))"
        using C link w1 by auto
    qed
  qed
qed

lemma walk_pages_revisit:
  assumes "after_rounds env hs m (JStr u, a, s) = Some (JStr u, a', s')" and "0 < m"
  shows "walk_pages env hs (JStr u) a s = None"
proof -
  from after_rounds_collect [OF assms] obtain C where
    C: "u \<in> C" "\<forall>w\<in>C. \<exists>v. stored_link s' w v \<and> (v = JStr u \<or> (\<exists>x\<in>C. v = JStr x))"
    by blast
  then have "closed_region s' C"
    unfolding closed_region_def by metis
  from walk_pages_region [OF this C(1)] have "walk_pages env hs (JStr u) a' s' = None" .
  with walk_pages_after_rounds [OF assms(1)] show ?thesis by simp
qed

lemma walk_pages_returns_aux:
  assumes "walk_pages env hs n acc s = Some y"
  shows "\<exists>k c acc' s'. after_rounds env hs k (n, acc, s) = Some (c, acc', s')
           \<and> round_step env hs c acc' s' = Inl y"
proof (rule walk_pages_round_induct
    [where P = "\<lambda>env hs n acc s y. \<exists>k c acc' s'.
        after_rounds env hs k (n, acc, s) = Some (c, acc', s') \<and> round_step env hs c acc' s' = Inl y",
     OF assms])
  fix walk :: "env \<Rightarrow> headers \<Rightarrow> json \<Rightarrow> json list \<Rightarrow> state \<Rightarrow> ((error + json) \<times> state) option"
    and env :: env and hs :: headers and n :: json and acc :: "json list" and s :: state
    and y :: "(error + json) \<times> state"
  assume ih: "\<And>env hs n acc s y. walk env hs n acc s = Some y \<Longrightarrow>
      \<exists>k c acc' s'. after_rounds env hs k (n, acc, s) = Some (c, acc', s')
         \<and> round_step env hs c acc' s' = Inl y"
  assume body: "(case round_step env hs n acc s of
         Inl out \<Rightarrow> Some out
       | Inr (n', acc', s1) \<Rightarrow> walk env hs n' acc' s1) = Some y"
  show "\<exists>k c acc' s'. after_rounds env hs k (n, acc, s) = Some (c, acc', s')
         \<and> round_step env hs c acc' s' = Inl y"
  proof (cases "round_step env hs n acc s")
    case (Inl out)
    with body have "out = y" by simp
    with Inl show ?thesis
      by (intro exI [of _ 0] exI [of _ n] exI [of _ acc] exI [of _ s]) simp
  next
    case (Inr c)
    obtain n1 a1 s1 where c: "c = (n1, a1, s1)" by (cases c) auto
    with Inr body have "walk env hs n1 a1 s1 = Some y" by simp
    from ih [OF this] obtain k c' acc' s' where
      "after_rounds env hs k (n1, a1, s1) = Some (c', acc', s')" "round_step env hs c' acc' s' = Inl y"
      by blast
    with Inr c show ?thesis
      by (intro exI [of _ "Suc k"] exI [of _ c'] exI [of _ acc'] exI [of _ s']) simp
  qed
qed

lemma round_step_result:
  "round_step env hs c acc s = Inl (Inr r, s') \<Longrightarrow>
   \<not> truthy c \<and> r = JObj [(''results'', JArr acc)] \<and> s' = s"
  by (auto simp: round_step_def split: if_splits json.splits prod.splits sum.splits)


subsection \<open>A finite page chain\<close>

lemma is_results_of:
  "is_page p \<Longrightarrow> dict_get p ''results'' (JArr []) = Inr (JArr (results_of p))
     \<and> dict_get p ''next'' JNull = Inr (next_of p)"
  by (cases p) (auto simp: is_page_def results_of_def next_of_def split: sum.splits json.splits)

lemma round_step_page:
  assumes "cached_get env (page_key u) u None hs 3600 s = (Inr p, s1)" "u \<noteq> []" "is_page p"
  shows "round_step env hs (JStr u) acc s = Inr (next_of p, acc @ results_of p, s1)"
  using assms is_results_of [OF assms(3)] by (simp add: round_step_def)

lemma walk_pages_chain:
  "linked us ps \<Longrightarrow> visit_all env hs us s = (map Inr ps, s') \<Longrightarrow>
   walk_pages env hs (JStr (hd us)) acc s
     = Some (Inr (JObj [(''results'', JArr (acc @ concat (map results_of ps)))]), s')"
proof (induction us ps arbitrary: acc s rule: linked.induct)
  case (1 u p)
  then have "cached_get env (page_key u) u None hs 3600 s = (Inr p, s')"
    by (auto split: prod.splits)
  from round_step_page [OF this] 1 have
    "round_step env hs (JStr u) acc s = Inr (next_of p, acc @ results_of p, s')"
    by simp
  moreover from 1 have "round_step env hs (next_of p) (acc @ results_of p) s'
      = Inl (Inr (JObj [(''results'', JArr (acc @ results_of p))]), s')"
    by (simp add: round_step_def)
  ultimately show ?case
    by (subst walk_pages_round, simp, subst walk_pages_round, simp)
next
  case (2 u v us p ps)
  from 2(3) obtain s1 where
    c: "cached_get env (page_key u) u None hs 3600 s = (Inr p, s1)"
    and rest: "visit_all env hs (v # us) s1 = (map Inr ps, s')"
    by (auto split: prod.splits)
  from round_step_page [OF c] 2(2) have
    "round_step env hs (JStr u) acc s = Inr (JStr v, acc @ results_of p, s1)"
    by simp
  moreover from 2(1) [OF _ rest, of "acc @ results_of p"] 2(2)
  have "walk_pages env hs (JStr v) (acc @ results_of p) s1
      = Some (Inr (JObj [(''results'', JArr (acc @ results_of p @ concat (map results_of ps)))]), s')"
    by simp
  ultimately show ?case
    by (subst walk_pages_round) simp
qed simp_all

lemma cached_get_frame:
  "cached_get env k url ps hs ttl s = (r, s') \<Longrightarrow> k' \<noteq> k \<Longrightarrow>
   inproc s' k' = inproc s k' \<and> redis s' k' = redis s k'"
  by (auto simp: cached_get_def get_redis_def redis_get_def fetch_data_def redis_set_def
      emit_def store_local_def split: option.splits sum.splits if_splits)

lemma cached_get_cold_fetch:
  "cached_get env k url ps hs ttl s = (Inr p, s') \<Longrightarrow> inproc s k = None \<Longrightarrow> redis s k = None \<Longrightarrow>
   fetches s' = fetches s @ [url]"
  by (auto simp: cached_get_def get_redis_def redis_get_def fetch_data_def redis_set_def
      cached_hit_def emit_def store_local_def fetches_def split: option.splits sum.splits if_splits)

lemma visit_all_cold:
  "visit_all env hs us s = (map Inr ps, s') \<Longrightarrow> distinct us \<Longrightarrow>
   \<forall>u\<in>set us. inproc s (page_key u) = None \<and> redis s (page_key u) = None \<Longrightarrow>
   fetches s' = fetches s @ us"
proof (induction us arbitrary: ps s)
  case Nil
  then show ?case by simp
next
  case (Cons u us)
  from Cons.prems(1) obtain p ps' s1 where
    c: "cached_get env (page_key u) u None hs 3600 s = (Inr p, s1)"
    and rest: "visit_all env hs us s1 = (map Inr ps', s')"
    by (cases ps) (auto split: prod.splits)
  from cached_get_cold_fetch [OF c] Cons.prems(3) have f: "fetches s1 = fetches s @ [u]"
    by simp
  have "\<forall>v\<in>set us. inproc s1 (page_key v) = None \<and> redis s1 (page_key v) = None"
  proof
    fix v assume v: "v \<in> set us"
    with Cons.prems(2) have "page_key v \<noteq> page_key u" by (auto simp: page_key_def)
    from cached_get_frame [OF c this] Cons.prems(3) v
    show "inproc s1 (page_key v) = None \<and> redis s1 (page_key v) = None" by simp
  qed
  from Cons.IH [OF rest _ this] Cons.prems(2) f show ?case by simp
qed

lemma visit_all_inproc_mono:
  "visit_all env hs us s = (rs, s') \<Longrightarrow> inproc s k = Some x \<Longrightarrow> inproc s' k = Some x"
proof (induction us arbitrary: rs s)
  case Nil then show ?case by simp
next
  case (Cons u us)
  then show ?case
    by (auto split: prod.splits dest: cached_get_inproc_mono)
qed

lemma visit_all_stores:
  "visit_all env hs us s = (map Inr ps, s') \<Longrightarrow> i < length us \<Longrightarrow>
   inproc s' (page_key (us ! i)) = Some (ps ! i)"
proof (induction us arbitrary: ps s i)
  case Nil then show ?case by simp
next
  case (Cons u us)
  from Cons.prems(1) obtain p ps' s1 where
    c: "cached_get env (page_key u) u None hs 3600 s = (Inr p, s1)"
    and rest: "visit_all env hs us s1 = (map Inr ps', s')" and ps: "ps = p # ps'"
    by (cases ps) (auto split: prod.splits)
  show ?case
  proof (cases i)
    case 0
    with cached_get_stores [OF c] visit_all_inproc_mono [OF rest] ps show ?thesis by simp
  next
    case (Suc j)
    with Cons.IH [OF rest, of j] Cons.prems(2) ps show ?thesis by simp
  qed
qed

text \<open>
  Claim C6. Let the pages \<open>ps\<close> at the URLs \<open>us\<close> link up (each page's \<open>next\<close> is the next
  URL) and end (the last \<open>next\<close> is empty or absent), where page \<open>i\<close> is what one
  orchestrated fetch under the key \<open>vehicles_data_\<close> followed by the URL yields, the fetches
  made one after the other (\<open>visit_all\<close>). Then \<^verbatim>\<open>fetch_vehicles_paginated\<close> returns, its
  result is \<open>{"results": r}\<close> with \<open>r\<close> the pages' results concatenated in page order, and
  its effect on the state is that of exactly those fetches, one per page: every page is
  held under its key afterwards, and from caches that hold none of the pages exactly the
  URLs of the chain are fetched over HTTP, each once, in order.
\<close>

theorem fetch_vehicles_paginated_chain:
  assumes "linked us ps" and "visit_all env hs us s = (map Inr ps, s')"
  shows "fetch_vehicles_paginated env (hd us) hs s
           = Some (Inr (JObj [(''results'', JArr (concat (map results_of ps)))]), s')
       \<and> (\<forall>i<length us. inproc s' (''vehicles_data_'' @ us ! i) = Some (ps ! i))
       \<and> (distinct us \<and> (\<forall>u\<in>set us. inproc s (''vehicles_data_'' @ u) = None
                                   \<and> redis s (''vehicles_data_'' @ u) = None)
            \<longrightarrow> fetches s' = fetches s @ us)"
  using walk_pages_chain [OF assms, of "[]"] visit_all_stores [OF assms(2)]
    visit_all_cold [OF assms(2)]
  by (simp add: fetch_vehicles_paginated_def page_key_def)

text \<open>
  The theorem at work: a chain of three pages, and the single page
  \<open>{"results": [{"name": "Speeder"}], "next": null}\<close>, both from cold caches.
\<close>

theorem fetch_vehicles_paginated_chain_witness:
  "(case visit_all demo_env None chain3 cold of
      (rs, s') \<Rightarrow>
        fetch_vehicles_paginated demo_env ''https://sw.example/vehicles'' None cold
          = Some (Inr (JObj [(''results'',
                JArr [JObj [(''name'', JStr ''Sand Crawler'')],
                      JObj [(''name'', JStr ''Snowspeeder'')],
                      JObj [(''name'', JStr ''AT-AT'')]])]), s')
      \<and> fetches s' = chain3)
   \<and> (case visit_all demo_env None [''https://sw.example/speeder''] cold of
      (rs, s') \<Rightarrow>
        fetch_vehicles_paginated demo_env ''https://sw.example/speeder'' None cold
          = Some (Inr (JObj [(''results'', JArr [JObj [(''name'', JStr ''Speeder'')]])]), s')
      \<and> fetches s' = [''https://sw.example/speeder''])"
proof -
  have l3: "linked chain3 pages3"
    by (simp add: chain3_def pages3_def demo_page_def is_page_def next_of_def)
  have l1: "linked [''https://sw.example/speeder''] [demo_page ''Speeder'' []]"
    by (simp add: demo_page_def is_page_def next_of_def)
  have "fst (visit_all demo_env None chain3 cold) = map Inr pages3"
    by (simp add: chain3_def pages3_def eval_defs demo_page_def demo_defs
        split: prod.splits)
  then obtain s3 where v3: "visit_all demo_env None chain3 cold = (map Inr pages3, s3)"
    by (cases "visit_all demo_env None chain3 cold") auto
  have "fst (visit_all demo_env None [''https://sw.example/speeder''] cold)
      = map Inr [demo_page ''Speeder'' []]"
    by (simp add: eval_defs demo_page_def demo_defs split: prod.splits)
  then obtain s1 where v1: "visit_all demo_env None [''https://sw.example/speeder''] cold
      = (map Inr [demo_page ''Speeder'' []], s1)"
    by (cases "visit_all demo_env None [''https://sw.example/speeder''] cold") auto
  have c: "distinct chain3" "\<forall>u\<in>set chain3. inproc cold (''vehicles_data_'' @ u) = None
      \<and> redis cold (''vehicles_data_'' @ u) = None" "fetches cold = []"
    by (simp_all add: chain3_def cold_def fetches_def)
  have r: "concat (map results_of pages3)
      = [JObj [(''name'', JStr ''Sand Crawler'')], JObj [(''name'', JStr ''Snowspeeder'')],
         JObj [(''name'', JStr ''AT-AT'')]]"
    "concat (map results_of [demo_page ''Speeder'' []]) = [JObj [(''name'', JStr ''Speeder'')]]"
    by (simp_all add: pages3_def results_of_def demo_page_def)
  from fetch_vehicles_paginated_chain [OF l3 v3] c r(1)
  have a: "fetch_vehicles_paginated demo_env ''https://sw.example/vehicles'' None cold
          = Some (Inr (JObj [(''results'',
                JArr [JObj [(''name'', JStr ''Sand Crawler'')],
                      JObj [(''name'', JStr ''Snowspeeder'')],
                      JObj [(''name'', JStr ''AT-AT'')]])]), s3) \<and> fetches s3 = chain3"
    by (simp add: chain3_def)
  from fetch_vehicles_paginated_chain [OF l1 v1] r(2)
  have b: "fetch_vehicles_paginated demo_env ''https://sw.example/speeder'' None cold
          = Some (Inr (JObj [(''results'', JArr [JObj [(''name'', JStr ''Speeder'')]])]), s1)
      \<and> fetches s1 = [''https://sw.example/speeder'']"
    by (simp add: cold_def fetches_def)
  from a b v3 v1 show ?thesis by simp
qed

subsection \<open>A cyclic page chain\<close>

text \<open>
  Claim C7. The loop has no guard: if the walker, some rounds after its start, is at a cursor
  \<open>u\<close> and, one or more rounds later, at \<open>u\<close> again, then \<^verbatim>\<open>fetch_vehicles_paginated\<close> never
  returns (the pages of the lap are by then all held in the process-local tier, which
  serves them for ever). Conversely, whenever it returns a result, the loop was left after
  finitely many rounds at an empty or absent cursor.
\<close>

theorem fetch_vehicles_paginated_cycle:
  "(after_rounds env hs i (JStr url, [], s) = Some (JStr u, acc1, s1)
      \<and> after_rounds env hs j (JStr u, acc1, s1) = Some (JStr u, acc2, s2) \<and> 0 < j
      \<longrightarrow> fetch_vehicles_paginated env url hs s = None)
   \<and> (\<forall>r s'. fetch_vehicles_paginated env url hs s = Some (Inr r, s') \<longrightarrow>
        (\<exists>k c acc. after_rounds env hs k (JStr url, [], s) = Some (c, acc, s')
               \<and> \<not> truthy c \<and> r = JObj [(''results'', JArr acc)]))"
proof (intro conjI impI allI)
  assume h: "after_rounds env hs i (JStr url, [], s) = Some (JStr u, acc1, s1)
      \<and> after_rounds env hs j (JStr u, acc1, s1) = Some (JStr u, acc2, s2) \<and> 0 < j"
  then have "walk_pages env hs (JStr u) acc1 s1 = None"
    by (auto intro: walk_pages_revisit)
  with h walk_pages_after_rounds [of env hs i "JStr url" "[]" s "JStr u" acc1 s1]
  show "fetch_vehicles_paginated env url hs s = None"
    by (simp add: fetch_vehicles_paginated_def)
next
  fix r s' assume "fetch_vehicles_paginated env url hs s = Some (Inr r, s')"
  then have "walk_pages env hs (JStr url) [] s = Some (Inr r, s')"
    by (simp add: fetch_vehicles_paginated_def)
  from walk_pages_returns_aux [OF this] obtain k c acc' s'' where
    k: "after_rounds env hs k (JStr url, [], s) = Some (c, acc', s'')"
    "round_step env hs c acc' s'' = Inl (Inr r, s')"
    by blast
  from round_step_result [OF k(2)] k(1)
  show "\<exists>k c acc. after_rounds env hs k (JStr url, [], s) = Some (c, acc, s')
               \<and> \<not> truthy c \<and> r = JObj [(''results'', JArr acc)]"
    by blast
qed

text \<open>
  The theorem at work: two pages that point at each other, and the single Speeder page.
\<close>

theorem fetch_vehicles_paginated_cycle_witness:
  "fetch_vehicles_paginated demo_env ''https://loop.example/a'' None cold = None
   \<and> (\<exists>acc s'. after_rounds demo_env None (Suc (Suc 0)) (JStr ''https://loop.example/a'', [], cold)
                 = Some (JStr ''https://loop.example/a'', acc, s'))
   \<and> (\<exists>r s'. fetch_vehicles_paginated demo_env ''https://sw.example/speeder'' None cold = Some (Inr r, s')
        \<and> (\<exists>k c acc. after_rounds demo_env None k (JStr ''https://sw.example/speeder'', [], cold)
                        = Some (c, acc, s') \<and> \<not> truthy c \<and> r = JObj [(''results'', JArr acc)]))"
proof -
  let ?a = "''https://loop.example/a''"
  have "\<exists>acc s'. after_rounds demo_env None (Suc (Suc 0)) (JStr ?a, [], cold) = Some (JStr ?a, acc, s')"
    by (simp add: round_step_def eval_defs demo_page_def demo_defs)
  then obtain acc s' where
    lap: "after_rounds demo_env None (Suc (Suc 0)) (JStr ?a, [], cold) = Some (JStr ?a, acc, s')"
    by blast
  have start: "after_rounds demo_env None 0 (JStr ?a, [], cold) = Some (JStr ?a, [], cold)"
    by simp
  from fetch_vehicles_paginated_cycle
         [where env = demo_env and hs = None and i = 0 and url = ?a and s = cold and u = ?a
            and ?acc1.0 = "[]" and ?s1.0 = cold and j = "Suc (Suc 0)" and ?acc2.0 = acc and ?s2.0 = s']
       start lap
  have loop: "fetch_vehicles_paginated demo_env ?a None cold = None"
    by simp
  let ?sp = "''https://sw.example/speeder''"
  have "\<exists>r s'. fetch_vehicles_paginated demo_env ?sp None cold = Some (Inr r, s')"
    unfolding fetch_vehicles_paginated_def
    by (subst walk_pages_round, simp add: round_step_def eval_defs demo_page_def demo_defs,
        subst walk_pages_round, simp add: round_step_def)
  then obtain r s1 where sp: "fetch_vehicles_paginated demo_env ?sp None cold = Some (Inr r, s1)"
    by blast
  from fetch_vehicles_paginated_cycle
         [where env = demo_env and hs = None and url = ?sp and s = cold] sp
  have "\<exists>k c acc. after_rounds demo_env None k (JStr ?sp, [], cold) = Some (c, acc, s1)
          \<and> \<not> truthy c \<and> r = JObj [(''results'', JArr acc)]"
    by blast
  with sp loop lap show ?thesis by blast
qed

subsection \<open>The admission gate\<close>

lemmas task_defs = run_def idle_def SEMAPHORE_def spawn_def fetch_single_def direct_call_def
  step_def cancel_def finish_task_def advance_def fetch_single_key_def url_suffix_def
  str_rstrip_def outcome_def drive_def sched_step_def


lemma list_all_update:
  "list_all P xs \<Longrightarrow> P y \<Longrightarrow> list_all P (xs[i := y])"
  by (induction xs arbitrary: i) (auto split: nat.splits)









lemma gate_inv_mem [simp]: "gate_inv (p\<lparr>mem := s\<rparr>) = gate_inv p"
  by (simp add: gate_inv_def)













text \<open>The bound is reached: of six tasks resumed once each, five enter and the sixth waits.\<close>

lemma gate_full_example:
  "sem (run (Spawn ''films'' [''1'', ''2'', ''3'', ''4'', ''5'', ''6''] None 3600
             # map (Resume demo_env) [0, 1, 2, 3, 4, 5]) (idle cold)) = 0
   \<and> map t_pc (tasks (run (Spawn ''films'' [''1'', ''2'', ''3'', ''4'', ''5'', ''6''] None 3600
             # map (Resume demo_env) [0, 1, 2, 3, 4, 5]) (idle cold)))
       = [Entered, Entered, Entered, Entered, Entered, Waiting]"
  by (simp add: task_defs Let_def)

subsection \<open>Entries of the process-local tier\<close>



lemma no_racer_update:
  "no_racer k p \<Longrightarrow> (t_key t = k \<Longrightarrow> \<not> past_check (t_pc t)) \<Longrightarrow>
   no_racer k (p\<lparr>tasks := (tasks p)[i := t]\<rparr>)"
  by (auto simp: no_racer_def intro: list_all_update)

lemma no_racer_fields [simp]:
  "no_racer k (p\<lparr>mem := s\<rparr>) = no_racer k p"
  "no_racer k (p\<lparr>sem := n\<rparr>) = no_racer k p"
  "no_racer k (p\<lparr>finished := f\<rparr>) = no_racer k p"
  by (simp_all add: no_racer_def)










subsection \<open>A batch\<close>

lemma call_of_pc [simp]: "call_of (t\<lparr>t_pc := c\<rparr>) = call_of t"
  by (simp add: call_of_def)










lemma outcome_fields [simp]:
  "outcome (p\<lparr>mem := s\<rparr>) = outcome p"
  "outcome (p\<lparr>sem := n\<rparr>) = outcome p"
  "outcome (p\<lparr>tasks := (tasks p)[i := t]\<rparr>) = outcome p"
  by (simp_all add: outcome_def)








































end
